theory Spec2Isabelle
  imports Main "HOL-Library.Char_ord" "HOL-Library.List_Lexorder"
begin

section \<open>Data model\<close>

text \<open>
  The exceptions the program can raise: \<open>TypeError\<close> (unpacking \<open>None\<close>), \<open>KeyError\<close>
  (a missing dictionary key), \<open>HTTPError\<close> (the download: transport failure or
  \<open>raise_for_status\<close>), \<open>JSONDecodeError\<close> (a cache file that does not load) and
  \<open>FileNotFoundError\<close> (opening a file that is not there).
\<close>

datatype error = TypeError | KeyError | HTTPError | JSONDecodeError | FileNotFoundError

text \<open>
  A registry record is \<open>{"what": ..., "target": {"url": ..., "http_code": ...}}\<close>.
  The model takes the records well-formed: \<open>what\<close> and \<open>url\<close> are strings and
  \<open>http_code\<close> is an integer.
\<close>

record target =
  url :: string
  http_code :: int

record naan_record =
  what :: string
  target :: target

subsection \<open>Python dictionaries\<close>

text \<open>
  A Python \<open>dict\<close> keeps its items in insertion order and has no key twice. It is
  an association list here; \<open>setitem\<close> is \<open>d[k] = v\<close> (an existing key keeps its
  place and gets the new value, a new key goes to the end), \<open>dict_update\<close> is
  \<open>d.update(e)\<close> and \<open>getitem\<close> is \<open>d[k]\<close>, which raises \<open>KeyError\<close>.
\<close>

type_synonym ('k, 'v) pydict = "('k \<times> 'v) list"

fun setitem :: "'k \<Rightarrow> 'v \<Rightarrow> ('k, 'v) pydict \<Rightarrow> ('k, 'v) pydict" where
  "setitem k v [] = [(k, v)]"
| "setitem k v (kv # d) = (if fst kv = k then (k, v) # d else kv # setitem k v d)"

definition dict_update :: "('k, 'v) pydict \<Rightarrow> ('k, 'v) pydict \<Rightarrow> ('k, 'v) pydict" where
  "dict_update d e = foldl (\<lambda>acc kv. setitem (fst kv) (snd kv) acc) d e"

definition getitem :: "('k, 'v) pydict \<Rightarrow> 'k \<Rightarrow> error + 'v" where
  "getitem d k = (case map_of d k of None \<Rightarrow> Inl KeyError | Some v \<Rightarrow> Inr v)"

definition keys :: "('k, 'v) pydict \<Rightarrow> 'k list" where
  "keys d = map fst d"

subsection \<open>Python string and list built-ins\<close>

fun startswith :: "string \<Rightarrow> string \<Rightarrow> bool" where
  "startswith s [] = True"
| "startswith [] (c # p) = False"
| "startswith (a # s) (c # p) = (a = c \<and> startswith s p)"

definition endswith :: "string \<Rightarrow> string \<Rightarrow> bool" where
  "endswith s suffix = startswith (rev s) (rev suffix)"

definition removeprefix :: "string \<Rightarrow> string \<Rightarrow> string" where
  "removeprefix s p = (if p \<noteq> [] \<and> startswith s p then drop (length p) s else s)"

definition removesuffix :: "string \<Rightarrow> string \<Rightarrow> string" where
  "removesuffix s suffix =
     (if suffix \<noteq> [] \<and> endswith s suffix then take (length s - length suffix) s else s)"

text \<open>
  \<open>max(xs, key=f)\<close> on a non-empty list: the scan keeps the current best and replaces
  it only by a strictly greater item, so the first maximal item wins.
\<close>

fun max_key :: "('a \<Rightarrow> 'b::linorder) \<Rightarrow> 'a \<Rightarrow> 'a list \<Rightarrow> 'a" where
  "max_key f best [] = best"
| "max_key f best (x # xs) = max_key f (if f best < f x then x else best) xs"

text \<open>
  \<open>sorted(xs, key=f, reverse=True)\<close>: descending by key and stable, that is, items
  with equal keys keep their original order (the list is reversed, sorted stably in
  ascending order and reversed again).
\<close>

definition sorted_reverse :: "('a \<Rightarrow> 'b::linorder) \<Rightarrow> 'a list \<Rightarrow> 'a list" where
  "sorted_reverse f xs = rev (sort_key f (rev xs))"

section \<open>Prefix matching and redirect construction\<close>

definition match_prefix :: "string \<Rightarrow> (string, 'v) pydict \<Rightarrow> (string \<times> 'v) option" where
  "match_prefix input_string dictionary =
     (let matches = filter (\<lambda>kv. startswith input_string (fst kv)) dictionary
      in case matches of
           [] \<Rightarrow> None
         | m # ms \<Rightarrow> Some (max_key (\<lambda>x. length (fst x)) m ms))"

record redirect_response =
  location :: string
  status_code :: int

text \<open>
  \<open>handle_ark\<close>: the tuple unpacking \<open>what, target = match_prefix(...)\<close> raises
  \<open>TypeError\<close> when \<open>match_prefix\<close> returned \<open>None\<close>; nothing catches it.
\<close>

definition handle_ark :: "string \<Rightarrow> (string, target) pydict \<Rightarrow> error + redirect_response" where
  "handle_ark raw ark_root_resolver_map =
     (let identifier = (if startswith raw ''/'' then removeprefix raw ''/'' else raw)
      in case match_prefix identifier ark_root_resolver_map of
           None \<Rightarrow> Inl TypeError
         | Some (what', target') \<Rightarrow>
             Inr \<lparr>location = removesuffix (url target') ''${content}'' @ identifier,
                  status_code = http_code target'\<rparr>)"

section \<open>The registry cache and its refresh\<close>

text \<open>
  The registry document is a JSON object; the program reads its \<open>"data"\<close> field, a list
  of records. The model takes every top-level field as a list of records.
\<close>

type_synonym registry = "(string, naan_record list) pydict"

text \<open>
  The cache directory. A cache file \<open>data_<timestamp>.json\<close> is identified by the
  timestamp in its name (whole seconds); the directory lists the files in the order
  \<open>glob\<close> yields them. A file has a modification time and, when it parses as JSON, the
  registry it holds (\<open>None\<close>: \<open>json.load\<close> raises). Times are whole seconds.
\<close>

type_synonym path = int

record cache_entry =
  st_mtime :: int
  content :: "registry option"

type_synonym directory = "(path, cache_entry) pydict"

text \<open>
  The state the program mutates: the cache directory, the two module-level
  dictionaries, and the number of HTTP requests sent to the registry so far.
\<close>

record world =
  files :: directory
  naan_registry_cache :: registry
  ark_root_resolver_map :: "(string, target) pydict"
  downloads :: nat

text \<open>
  What one call meets from outside: the clock (read once per call: the freshness
  check and the name and modification time of a saved file use the same reading), and
  what the registry URL answers (an exception of the HTTP client, or the decoded JSON
  body).
\<close>

record env =
  now :: int
  remote :: "error + registry"

datatype outcome = Returned | Raised error

definition initial_world :: "directory \<Rightarrow> world" where
  "initial_world fs =
     \<lparr>files = fs, naan_registry_cache = [], ark_root_resolver_map = [], downloads = 0\<rparr>"

definition get_latest_naan_registry_cache_file :: "directory \<Rightarrow> path option" where
  "get_latest_naan_registry_cache_file fs =
     (case fs of [] \<Rightarrow> None
      | f # rest \<Rightarrow> Some (fst (max_key (\<lambda>p. st_mtime (snd p)) f rest)))"

definition exists :: "directory \<Rightarrow> path \<Rightarrow> bool" where
  "exists fs cache_file = (map_of fs cache_file \<noteq> None)"

definition is_cache_valid :: "directory \<Rightarrow> int \<Rightarrow> path \<Rightarrow> int \<Rightarrow> bool" where
  "is_cache_valid fs t cache_file interval_seconds =
     (case map_of fs cache_file of
        None \<Rightarrow> False
      | Some f \<Rightarrow> t - st_mtime f < interval_seconds)"

definition load_from_cache :: "directory \<Rightarrow> path \<Rightarrow> error + registry" where
  "load_from_cache fs cache_file =
     (case map_of fs cache_file of
        None \<Rightarrow> Inl FileNotFoundError
      | Some f \<Rightarrow> (case content f of None \<Rightarrow> Inl JSONDecodeError | Some data \<Rightarrow> Inr data))"

text \<open>
  \<open>save_data_to_cache\<close> opens \<open>data_<now>.json\<close> for writing: a file of that name is
  overwritten, otherwise a new one is created. Writing is taken to succeed.
\<close>

definition save_data_to_cache :: "int \<Rightarrow> registry \<Rightarrow> directory \<Rightarrow> path \<times> directory" where
  "save_data_to_cache t data fs = (t, setitem t \<lparr>st_mtime = t, content = Some data\<rparr> fs)"

text \<open>
  \<open>update_ark_root_resolver_map\<close>: the dict comprehension over the records sorted by
  descending length of \<open>what\<close>, merged into the module-level map with \<open>update\<close>.
  \<open>naan_registry_cache["data"]\<close> raises \<open>KeyError\<close> when the field is absent.
\<close>

definition comprehension :: "naan_record list \<Rightarrow> (string, target) pydict" where
  "comprehension records =
     foldl (\<lambda>acc record. setitem (what record) (target record) acc) [] records"

definition update_ark_root_resolver_map :: "world \<Rightarrow> error + world" where
  "update_ark_root_resolver_map w =
     (case getitem (naan_registry_cache w) ''data'' of
        Inl e \<Rightarrow> Inl e
      | Inr records \<Rightarrow>
          Inr (w\<lparr>ark_root_resolver_map :=
                 dict_update (ark_root_resolver_map w)
                   (comprehension (sorted_reverse (\<lambda>record. length (what record)) records))\<rparr>))"

text \<open>
  The body of the \<open>try\<close> statement. It returns the exception that left it (if any),
  the value of the variable \<open>cache_file\<close> at that moment (the download branch
  reassigns it) and the state reached: what was written before an exception stays
  written.
\<close>

definition publish :: "registry \<Rightarrow> path option \<Rightarrow> world \<Rightarrow> error option \<times> path option \<times> world" where
  "publish data cache_file w =
     (let w1 = w\<lparr>naan_registry_cache := dict_update (naan_registry_cache w) data\<rparr>
      in case update_ark_root_resolver_map w1 of
           Inl e \<Rightarrow> (Some e, cache_file, w1)
         | Inr w2 \<Rightarrow> (None, cache_file, w2))"

definition download_and_save :: "env \<Rightarrow> path option \<Rightarrow> world \<Rightarrow> error option \<times> path option \<times> world" where
  "download_and_save e cache_file w =
     (let w1 = w\<lparr>downloads := Suc (downloads w)\<rparr>
      in case remote e of
           Inl x \<Rightarrow> (Some x, cache_file, w1)
         | Inr data \<Rightarrow>
             (let (cache_file', fs) = save_data_to_cache (now e) data (files w1)
              in publish data (Some cache_file') (w1\<lparr>files := fs\<rparr>)))"

definition try_block :: "env \<Rightarrow> int \<Rightarrow> bool \<Rightarrow> path option \<Rightarrow> world \<Rightarrow> error option \<times> path option \<times> world" where
  "try_block e interval_seconds force_download cache_file w =
     (if force_download then download_and_save e cache_file w
      else case cache_file of
             None \<Rightarrow> download_and_save e cache_file w
           | Some c \<Rightarrow>
               if is_cache_valid (files w) (now e) c interval_seconds
               then (case load_from_cache (files w) c of
                       Inl x \<Rightarrow> (Some x, cache_file, w)
                     | Inr data \<Rightarrow> publish data cache_file w)
               else download_and_save e cache_file w)"

text \<open>
  The \<open>except Exception\<close> handler: it logs, and when \<open>cache_file\<close> is set and exists
  it updates \<open>naan_registry_cache\<close> from that file. It does not call
  \<open>update_ark_root_resolver_map\<close>. An exception of \<open>load_from_cache\<close> here leaves the
  function.
\<close>

definition except_block :: "path option \<Rightarrow> world \<Rightarrow> outcome \<times> world" where
  "except_block cache_file w =
     (case cache_file of
        None \<Rightarrow> (Returned, w)
      | Some c \<Rightarrow>
          if exists (files w) c
          then (case load_from_cache (files w) c of
                  Inl x \<Rightarrow> (Raised x, w)
                | Inr data \<Rightarrow>
                    (Returned, w\<lparr>naan_registry_cache := dict_update (naan_registry_cache w) data\<rparr>))
          else (Returned, w))"

definition ensure_up_to_date_naan_registry_cache :: "env \<Rightarrow> int \<Rightarrow> bool \<Rightarrow> world \<Rightarrow> outcome \<times> world" where
  "ensure_up_to_date_naan_registry_cache e interval_seconds force_download w =
     (let cache_file = get_latest_naan_registry_cache_file (files w)
      in case try_block e interval_seconds force_download cache_file w of
           (None, _, w') \<Rightarrow> (Returned, w')
         | (Some x, cache_file', w') \<Rightarrow> except_block cache_file' w')"

text \<open>
  \<open>lifespan\<close> before the \<open>yield\<close>: the first refresh, with the default interval of a
  day and no forced download, on the empty module-level dictionaries. The application
  starts when the call returns and exits when it raises.
\<close>

definition lifespan :: "env \<Rightarrow> directory \<Rightarrow> outcome \<times> world" where
  "lifespan e fs = ensure_up_to_date_naan_registry_cache e (60 * 60 * 24) False (initial_world fs)"

section \<open>Example data\<close>

text \<open>The targets and the resolver map of the specification's examples.\<close>

definition T1 :: target where
  "T1 = \<lparr>url = ''https://example.org/${content}'', http_code = 302\<rparr>"

definition T2 :: target where
  "T2 = \<lparr>url = ''https://two.example.org/'', http_code = 301\<rparr>"

definition T3 :: target where
  "T3 = \<lparr>url = ''https://three.example.org/${content}'', http_code = 303\<rparr>"

definition example_map :: "(string, target) pydict" where
  "example_map = [(''12025'', T1), (''120'', T2), (''1202'', T3)]"

definition old_registry :: registry where
  "old_registry = [(''data'', [\<lparr>what = ''99999'', target = T2\<rparr>])]"

definition new_registry :: registry where
  "new_registry = [(''data'', [\<lparr>what = ''12025'', target = T1\<rparr>])]"

definition stale_directory :: directory where
  "stale_directory = [(5, \<lparr>st_mtime = 5, content = Some new_registry\<rparr>)]"

definition duplicate_records :: "naan_record list" where
  "duplicate_records =
     [\<lparr>what = ''12025'', target = T1\<rparr>, \<lparr>what = ''1202599'', target = T3\<rparr>,
      \<lparr>what = ''12025'', target = T2\<rparr>]"

text \<open>
  A cache file written at time 0 and two calls, at times 90 and 150, with an interval
  of 100 seconds: the file is younger than the interval at the first call and older
  at the second.
\<close>

definition aged_directory :: directory where
  "aged_directory = [(0, \<lparr>st_mtime = 0, content = Some new_registry\<rparr>)]"

definition first_call :: "outcome \<times> world" where
  "first_call = ensure_up_to_date_naan_registry_cache
     \<lparr>now = 90, remote = Inr old_registry\<rparr> 100 False (initial_world aged_directory)"

definition second_call :: "outcome \<times> world" where
  "second_call = ensure_up_to_date_naan_registry_cache
     \<lparr>now = 150, remote = Inr old_registry\<rparr> 100 False (snd first_call)"

text \<open>
  A registry is absorbed by a state when merging it into \<open>naan_registry_cache\<close> and
  merging the map built from the cache into \<open>ark_root_resolver_map\<close> change nothing.
\<close>

definition absorbed :: "registry \<Rightarrow> world \<Rightarrow> bool" where
  "absorbed data w =
     (dict_update (naan_registry_cache w) data = naan_registry_cache w \<and>
      (case getitem (naan_registry_cache w) ''data'' of
         Inl e \<Rightarrow> True
       | Inr records \<Rightarrow>
           dict_update (ark_root_resolver_map w)
             (comprehension (sorted_reverse (\<lambda>record. length (what record)) records))
           = ark_root_resolver_map w))"

text \<open>The definitions that evaluating a refresh on a concrete state unfolds.\<close>

lemmas refresh_defs =
  lifespan_def ensure_up_to_date_naan_registry_cache_def
  get_latest_naan_registry_cache_file_def try_block_def download_and_save_def
  except_block_def initial_world_def publish_def update_ark_root_resolver_map_def
  save_data_to_cache_def is_cache_valid_def load_from_cache_def exists_def
  getitem_def dict_update_def comprehension_def sorted_reverse_def

section \<open>Properties of the built-ins\<close>

lemma startswith_iff: "startswith s p \<longleftrightarrow> (\<exists>r. s = p @ r)"
  by (induction s p rule: startswith.induct) auto

lemma startswith_take: "startswith s p \<longleftrightarrow> take (length p) s = p"
  by (induction s p rule: startswith.induct) auto

lemma startswith_same_length:
  "startswith s p \<Longrightarrow> startswith s q \<Longrightarrow> length p = length q \<Longrightarrow> p = q"
  by (metis startswith_take)

lemma max_key_mem: "max_key f b xs \<in> set (b # xs)"
  by (induction xs arbitrary: b) auto

lemma max_key_ge_best: "f b \<le> f (max_key f b xs)"
proof (induction xs arbitrary: b)
  case Nil
  show ?case by simp
next
  case (Cons x xs)
  show ?case
  proof (cases "f b < f x")
    case True
    have "f x \<le> f (max_key f x xs)" by (rule Cons.IH)
    with True show ?thesis by simp
  next
    case False
    then show ?thesis using Cons.IH [of b] by simp
  qed
qed

lemma max_key_ge: "y \<in> set (b # xs) \<Longrightarrow> f y \<le> f (max_key f b xs)"
proof (induction xs arbitrary: b)
  case Nil
  then show ?case by simp
next
  case (Cons x xs)
  let ?b = "if f b < f x then x else b"
  have best: "f ?b \<le> f (max_key f ?b xs)" by (rule max_key_ge_best)
  from Cons.prems consider "y = b" | "y = x" | "y \<in> set xs" by auto
  then have "f y \<le> f (max_key f ?b xs)"
  proof cases
    case 1
    have "f b \<le> f ?b" by auto
    with 1 best show ?thesis by (metis order_trans)
  next
    case 2
    have "f x \<le> f ?b" by auto
    with 2 best show ?thesis by (metis order_trans)
  next
    case 3
    then show ?thesis using Cons.IH [of ?b] by simp
  qed
  then show ?case by simp
qed

lemma endswith_iff: "endswith s suffix \<longleftrightarrow> (\<exists>b. s = b @ suffix)"
proof -
  have "(\<exists>r. rev s = rev suffix @ r) \<longleftrightarrow> (\<exists>b. s = b @ suffix)"
  proof
    assume "\<exists>r. rev s = rev suffix @ r"
    then obtain r where "rev s = rev suffix @ r" by blast
    then have "rev (rev s) = rev (rev suffix @ r)" by simp
    then have "s = rev r @ suffix" by simp
    then show "\<exists>b. s = b @ suffix" by blast
  next
    assume "\<exists>b. s = b @ suffix"
    then obtain b where "s = b @ suffix" by blast
    then have "rev s = rev suffix @ rev b" by simp
    then show "\<exists>r. rev s = rev suffix @ r" by blast
  qed
  then show ?thesis by (simp add: endswith_def startswith_iff)
qed

lemma removesuffix_append: "removesuffix (b @ suffix) suffix = b"
  by (simp add: removesuffix_def endswith_iff)

lemma removesuffix_other: "\<not> (\<exists>b. s = b @ suffix) \<Longrightarrow> removesuffix s suffix = s"
  by (simp add: removesuffix_def endswith_iff)

lemma strip_leading_slash:
  "(if startswith raw ''/'' then removeprefix raw ''/'' else raw) =
   (case raw of [] \<Rightarrow> [] | c # rest \<Rightarrow> if c = CHR ''/'' then rest else raw)"
  by (cases raw) (auto simp: removeprefix_def)

section \<open>Prefix matching\<close>

lemma match_prefix_None: "match_prefix I M = None \<longleftrightarrow> (\<forall>kv \<in> set M. \<not> startswith I (fst kv))"
  by (auto simp: match_prefix_def filter_empty_conv split: list.splits)
   (metis filter_empty_conv list.distinct(1))

lemma match_prefix_Some:
  assumes "match_prefix I M = Some kv"
  shows "kv \<in> set M" and "startswith I (fst kv)"
    and "\<And>kv'. kv' \<in> set M \<Longrightarrow> startswith I (fst kv') \<Longrightarrow> length (fst kv') \<le> length (fst kv)"
proof -
  let ?ms = "filter (\<lambda>kv. startswith I (fst kv)) M"
  from assms obtain m ms where ms: "?ms = m # ms"
    and kv: "kv = max_key (\<lambda>x. length (fst x)) m ms"
    by (auto simp: match_prefix_def split: list.splits)
  have "kv \<in> set ?ms" using max_key_mem [of "\<lambda>x. length (fst x)" m ms] ms kv by simp
  then show "kv \<in> set M" and "startswith I (fst kv)" by auto
  fix kv' assume "kv' \<in> set M" "startswith I (fst kv')"
  then have "kv' \<in> set ?ms" by simp
  then have "kv' \<in> set (m # ms)" using ms by simp
  then show "length (fst kv') \<le> length (fst kv)"
    using max_key_ge [of kv' m ms "\<lambda>x. length (fst x)"] kv by simp
qed

lemma example_match:
  "match_prefix ''120259/x1'' example_map = Some (''12025'', T1)"
  by (simp add: match_prefix_def example_map_def)

text \<open>
  Claim C6. When \<open>match_prefix\<close> returns the key \<open>k\<close> for the identifier \<open>I\<close> and the
  map \<open>M\<close>, then \<open>I\<close> starts with \<open>k\<close>, the returned item is an item of \<open>M\<close>, and no
  key of \<open>M\<close> longer than \<open>k\<close> is a prefix of \<open>I\<close>. With the keys 12025, 120 and 1202
  and the identifier 120259/x1 the matched key is 12025.
\<close>

theorem match_prefix_longest:
  assumes "match_prefix I M = Some (k, v)"
  shows "(\<exists>rest. I = k @ rest) \<and> (k, v) \<in> set M \<and>
         \<not> (\<exists>k' \<in> set (keys M). length k < length k' \<and> (\<exists>rest. I = k' @ rest))"
proof -
  have "startswith I k" using match_prefix_Some(2) [OF assms] by simp
  then have 1: "\<exists>rest. I = k @ rest" by (simp add: startswith_iff)
  have 2: "(k, v) \<in> set M" by (rule match_prefix_Some(1) [OF assms])
  have 3: "\<not> (\<exists>k' \<in> set (keys M). length k < length k' \<and> (\<exists>rest. I = k' @ rest))"
  proof
    assume "\<exists>k' \<in> set (keys M). length k < length k' \<and> (\<exists>rest. I = k' @ rest)"
    then obtain k' v' where in_M: "(k', v') \<in> set M" and longer: "length k < length k'"
      and pre: "\<exists>rest. I = k' @ rest"
      by (auto simp: keys_def)
    from pre have "startswith I (fst (k', v'))" by (simp add: startswith_iff)
    from match_prefix_Some(3) [OF assms in_M this] longer show False by simp
  qed
  from 1 2 3 show ?thesis by blast
qed

theorem match_prefix_longest_witness:
  "match_prefix ''120259/x1'' example_map = Some (''12025'', T1) \<and>
   (\<exists>rest. ''120259/x1'' = ''12025'' @ rest) \<and> (''12025'', T1) \<in> set example_map \<and>
   \<not> (\<exists>k' \<in> set (keys example_map). length ''12025'' < length k' \<and> (\<exists>rest. ''120259/x1'' = k' @ rest))"
  using match_prefix_longest [OF example_match] example_match by blast

text \<open>
  Claim C2. For a dictionary (no key twice) the key \<open>match_prefix\<close> returns is, among
  the keys that are prefixes of the identifier, of maximal length and
  lexicographically smallest among those of that length, and every dictionary with
  the same items in another order gives the same result: two prefixes of one string
  that have the same length are equal, so the key of maximal length is unique.
\<close>

theorem match_prefix_tie_break:
  assumes dict: "distinct (keys M)"
    and hit: "match_prefix I M = Some (k, v)"
  shows "(\<forall>k' \<in> set (keys M). (\<exists>rest. I = k' @ rest) \<longrightarrow>
            length k' < length k \<or> (length k' = length k \<and> k \<le> k'))
         \<and> (\<forall>M'. distinct (keys M') \<and> set M' = set M \<longrightarrow> match_prefix I M' = Some (k, v))"
proof (intro conjI ballI allI impI)
  fix k' assume "k' \<in> set (keys M)" and pre: "\<exists>rest. I = k' @ rest"
  then obtain v' where in_M: "(k', v') \<in> set M" by (auto simp: keys_def)
  from pre have sw: "startswith I k'" by (simp add: startswith_iff)
  then have le: "length k' \<le> length k"
    using match_prefix_Some(3) [OF hit in_M] by simp
  have "startswith I k" using match_prefix_Some(2) [OF hit] by simp
  then have "length k' = length k \<Longrightarrow> k' = k"
    using sw by (simp add: startswith_same_length)
  with le show "length k' < length k \<or> (length k' = length k \<and> k \<le> k')"
    by (cases "length k' = length k") auto
next
  fix M' :: "(string \<times> 'a) list"
  assume M': "distinct (keys M') \<and> set M' = set M"
  have kv_M: "(k, v) \<in> set M" by (rule match_prefix_Some(1) [OF hit])
  have sw: "startswith I k" using match_prefix_Some(2) [OF hit] by simp
  have "match_prefix I M' \<noteq> None"
    using kv_M sw M' by (auto simp: match_prefix_None intro!: bexI [of _ "(k, v)"])
  then obtain k' v' where hit': "match_prefix I M' = Some (k', v')" by auto
  have in_M: "(k', v') \<in> set M" using match_prefix_Some(1) [OF hit'] M' by simp
  have sw': "startswith I k'" using match_prefix_Some(2) [OF hit'] by simp
  have "length k' \<le> length k" using match_prefix_Some(3) [OF hit in_M] sw' by simp
  moreover have "length k \<le> length k'"
    using match_prefix_Some(3) [OF hit', of "(k, v)"] kv_M M' sw by simp
  ultimately have "k' = k" using sw sw' by (simp add: startswith_same_length)
  moreover have "v' = v"
    using dict in_M kv_M \<open>k' = k\<close> by (metis keys_def eq_key_imp_eq_value)
  ultimately show "match_prefix I M' = Some (k, v)" using hit' by simp
qed

theorem match_prefix_tie_break_witness:
  "distinct (keys example_map) \<and>
   match_prefix ''120259/x1'' example_map = Some (''12025'', T1) \<and>
   match_prefix ''120259/x1'' (rev example_map) = Some (''12025'', T1) \<and>
   (length ''12025'' < length ''12025'' \<or>
      (length ''12025'' = length ''12025'' \<and> ''12025'' \<le> ''12025''))"
proof -
  have d: "distinct (keys example_map)" by (simp add: keys_def example_map_def)
  have d': "distinct (keys (rev example_map)) \<and> set (rev example_map) = set example_map"
    using d by (simp add: keys_def rev_map [symmetric] del: rev_map)
  show ?thesis
    using match_prefix_tie_break [OF d example_match] d d' example_match by simp
qed

text \<open>
  Claim C10. When the empty string is a key of the resolver map, \<open>match_prefix\<close>
  succeeds for every identifier, and \<open>handle_ark\<close> answers every request with a
  redirect: the no-match path cannot be taken.
\<close>

theorem empty_key_always_matches:
  assumes "[] \<in> set (keys M)"
  shows "(\<exists>k v. match_prefix I M = Some (k, v)) \<and> (\<exists>r. handle_ark raw M = Inr r)"
proof -
  from assms obtain v where "([], v) \<in> set M" by (auto simp: keys_def)
  then have "\<And>J. match_prefix J M \<noteq> None" 
    unfolding match_prefix_None by (rule_tac notI) force
  then have some: "\<And>J. \<exists>k v. match_prefix J M = Some (k, v)" by (metis not_None_eq surj_pair)
  define ident where
    "ident = (if startswith raw ''/'' then removeprefix raw ''/'' else raw)"
  from some obtain k' v' where "match_prefix ident M = Some (k', v')" by blast
  then have "\<exists>r. handle_ark raw M = Inr r"
    by (simp add: handle_ark_def ident_def [symmetric])
  with some show ?thesis by blast
qed

theorem empty_key_always_matches_witness:
  "[] \<in> set (keys [('''', T2), (''12025'', T1)]) \<and>
   match_prefix ''00000/x'' [('''', T2), (''12025'', T1)] = Some ('''', T2) \<and>
   (\<exists>r. handle_ark ''00000/x'' [('''', T2), (''12025'', T1)] = Inr r)"
proof -
  have h: "[] \<in> set (keys [('''', T2), (''12025'', T1)])" by (simp add: keys_def)
  have m: "match_prefix ''00000/x'' [('''', T2), (''12025'', T1)] = Some ('''', T2)"
    by (simp add: match_prefix_def)
  show ?thesis using empty_key_always_matches [OF h, of "''00000/x''" "''00000/x''"] h m by blast
qed

section \<open>Redirect construction\<close>

text \<open>
  Claim C7. For a raw identifier, let the identifier be the raw one without its first
  character when that is a slash (one slash at most is removed). When
  \<open>match_prefix\<close> finds a target for the identifier, \<open>handle_ark\<close> answers with the
  status code \<open>http_code\<close> of the target and the location made of the target's \<open>url\<close>,
  without its trailing placeholder \<open>${content}\<close> when it ends with it, followed by
  the whole identifier (not by what remains after the matched key).
\<close>

theorem handle_ark_redirect:
  assumes strip: "ident = (case raw of [] \<Rightarrow> [] | c # rest \<Rightarrow> if c = CHR ''/'' then rest else raw)"
    and hit: "match_prefix ident M = Some (k, t)"
  shows "(\<forall>base. url t = base @ ''${content}'' \<longrightarrow>
            handle_ark raw M = Inr \<lparr>location = base @ ident, status_code = http_code t\<rparr>) \<and>
         ((\<nexists>base. url t = base @ ''${content}'') \<longrightarrow>
            handle_ark raw M = Inr \<lparr>location = url t @ ident, status_code = http_code t\<rparr>)"
proof -
  have "handle_ark raw M =
          Inr \<lparr>location = removesuffix (url t) ''${content}'' @ ident, status_code = http_code t\<rparr>"
    using hit unfolding handle_ark_def strip_leading_slash strip [symmetric] by simp
  then show ?thesis
    by (auto simp: removesuffix_append removesuffix_other simp del: append_assoc)
qed

theorem handle_ark_redirect_witness:
  "match_prefix ''12025/x1'' example_map = Some (''12025'', T1) \<and>
   handle_ark ''12025/x1'' example_map =
     Inr \<lparr>location = ''https://example.org/12025/x1'', status_code = 302\<rparr> \<and>
   match_prefix ''120/x1'' example_map = Some (''120'', T2) \<and>
   handle_ark ''/120/x1'' example_map =
     Inr \<lparr>location = ''https://two.example.org/120/x1'', status_code = 301\<rparr>"
proof -
  have m1: "match_prefix ''12025/x1'' example_map = Some (''12025'', T1)"
    by (simp add: match_prefix_def example_map_def)
  have m2: "match_prefix ''120/x1'' example_map = Some (''120'', T2)"
    by (simp add: match_prefix_def example_map_def)
  have u1: "url T1 = ''https://example.org/'' @ ''${content}''" by (simp add: T1_def)
  have u2: "\<nexists>base. url T2 = base @ ''${content}''"
    by (simp add: T2_def endswith_iff [symmetric] endswith_def)
  have "handle_ark ''12025/x1'' example_map =
          Inr \<lparr>location = ''https://example.org/'' @ ''12025/x1'', status_code = http_code T1\<rparr>"
    using handle_ark_redirect [of "''12025/x1''" "''12025/x1''", OF _ m1] u1 by simp
  moreover have "handle_ark ''/120/x1'' example_map =
          Inr \<lparr>location = url T2 @ ''120/x1'', status_code = http_code T2\<rparr>"
    using handle_ark_redirect [of "''120/x1''" "''/120/x1''", OF _ m2] u2 by simp
  ultimately show ?thesis using m1 m2 by (simp add: T1_def T2_def)
qed

text \<open>
  Claim C1. With the example map, no key is a prefix of 00000/x: \<open>match_prefix\<close>
  returns \<open>None\<close>, and \<open>handle_ark\<close> does not produce a not-found result: unpacking
  \<open>None\<close> raises \<open>TypeError\<close>, which nothing catches.
\<close>

theorem handle_ark_no_match_raises:
  "match_prefix ''00000/x'' example_map = None \<and>
   handle_ark ''00000/x'' example_map = Inl TypeError"
  by (simp add: handle_ark_def match_prefix_def example_map_def)

section \<open>Refresh: evaluations\<close>

text \<open>
  Claim C3. At startup with an empty cache directory and a download that fails, the
  refresh returns normally: both module-level dictionaries are still empty, and no
  exception reaches \<open>lifespan\<close>.
\<close>

theorem startup_without_data_returns:
  "lifespan \<lparr>now = 1000, remote = Inl HTTPError\<rparr> [] =
     (Returned, \<lparr>files = [], naan_registry_cache = [], ark_root_resolver_map = [], downloads = 1\<rparr>)"
  by (simp add: refresh_defs)

text \<open>
  Claim C4. At startup with one cache file older than the interval and a download
  that fails, the refresh returns normally and \<open>naan_registry_cache\<close> holds the stale
  registry, but \<open>ark_root_resolver_map\<close> is still empty, although the map built from
  that registry has the key 12025.
\<close>

theorem stale_fallback_leaves_map:
  "lifespan \<lparr>now = 1000000, remote = Inl HTTPError\<rparr> stale_directory =
     (Returned, \<lparr>files = stale_directory, naan_registry_cache = new_registry,
                 ark_root_resolver_map = [], downloads = 1\<rparr>) \<and>
   comprehension (sorted_reverse (\<lambda>record. length (what record)) [\<lparr>what = ''12025'', target = T1\<rparr>])
     = [(''12025'', T1)]"
  by (simp add: refresh_defs stale_directory_def new_registry_def)

text \<open>
  Claim C5. Two refreshes that both download: the first registry has the single record
  99999, the second the single record 12025. After the second refresh
  \<open>naan_registry_cache\<close> is the second registry, and \<open>ark_root_resolver_map\<close> still has
  the key 99999 of the first next to 12025.
\<close>

theorem refresh_keeps_old_entries:
  "(let (r1, w1) = lifespan \<lparr>now = 0, remote = Inr old_registry\<rparr> [];
        (r2, w2) = ensure_up_to_date_naan_registry_cache \<lparr>now = 100000, remote = Inr new_registry\<rparr>
                     (60 * 60 * 24) False w1
    in r1 = Returned \<and> r2 = Returned \<and> downloads w2 = 2 \<and>
       naan_registry_cache w2 = new_registry \<and>
       ark_root_resolver_map w2 = [(''99999'', T2), (''12025'', T1)])"
  by (simp add: refresh_defs old_registry_def new_registry_def)

section \<open>Building the resolver map\<close>

lemma map_of_setitem: "map_of (setitem k v d) = (map_of d)(k \<mapsto> v)"
  by (induction d) auto

lemma keys_setitem: "fst ` set (setitem k v d) = insert k (fst ` set d)"
  by (induction d) auto

lemma distinct_setitem: "distinct (map fst d) \<Longrightarrow> distinct (map fst (setitem k v d))"
  by (induction d) (auto simp: keys_setitem)

lemma dict_update_snoc:
  "dict_update d (e @ [kv]) = setitem (fst kv) (snd kv) (dict_update d e)"
  by (simp add: dict_update_def)

lemma map_of_dict_update: "map_of (dict_update d e) = map_of d ++ map_of (rev e)"
proof (induction e rule: rev_induct)
  case Nil
  show ?case by (simp add: dict_update_def)
next
  case (snoc kv e)
  show ?case
    by (cases kv) (auto simp add: dict_update_snoc map_of_setitem snoc.IH map_add_def fun_eq_iff)
qed

lemma distinct_dict_update: "distinct (map fst d) \<Longrightarrow> distinct (map fst (dict_update d e))"
  by (induction e rule: rev_induct) (simp_all add: dict_update_def distinct_setitem)

lemma comprehension_dict_update:
  "comprehension records = dict_update [] (map (\<lambda>r. (what r, target r)) records)"
  by (simp add: comprehension_def dict_update_def foldl_map)

lemma distinct_comprehension: "distinct (map fst (comprehension records))"
  by (simp add: comprehension_dict_update distinct_dict_update)

lemma map_of_rev_distinct: "distinct (map fst xs) \<Longrightarrow> map_of (rev xs) = map_of xs"
  by (rule map_of_inject_set [THEN iffD2]) (simp_all add: rev_map [symmetric] del: rev_map)

lemma map_of_rev_records:
  "r \<in> set records \<Longrightarrow>
   map_of (rev (map (\<lambda>r. (what r, target r)) records)) (what r) =
     Some (target (last (filter (\<lambda>x. what x = what r) records)))"
proof (induction records rule: rev_induct)
  case Nil
  then show ?case by simp
next
  case (snoc x xs)
  show ?case
  proof (cases "what x = what r")
    case True
    then show ?thesis by simp
  next
    case False
    with snoc.prems have "r \<in> set xs" by auto
    then show ?thesis using False snoc.IH by simp
  qed
qed

lemma filter_narrow: "(\<And>x. P x \<Longrightarrow> Q x) \<Longrightarrow> filter P ys = filter P (filter Q ys)"
  by (induction ys) auto

lemma filter_sorted_reverse:
  "filter (\<lambda>x. what x = k) (sorted_reverse (\<lambda>record. length (what record)) records) =
   filter (\<lambda>x. what x = k) records"
proof -
  let ?f = "\<lambda>record. length (what record)"
  let ?P = "\<lambda>x. what x = k"
  let ?Q = "\<lambda>y. ?f y = length k"
  have "filter ?P (sort_key ?f (rev records)) = filter ?P (filter ?Q (sort_key ?f (rev records)))"
    by (rule filter_narrow) simp
  also have "\<dots> = filter ?P (filter ?Q (rev records))"
    by (simp only: sort_key_stable)
  also have "\<dots> = filter ?P (rev records)"
    by (rule filter_narrow [symmetric]) simp
  finally show ?thesis by (simp add: sorted_reverse_def rev_filter [symmetric])
qed

lemma map_of_comprehension_sorted:
  assumes "r \<in> set records"
  shows "map_of (comprehension (sorted_reverse (\<lambda>record. length (what record)) records)) (what r) =
         Some (target (last (filter (\<lambda>x. what x = what r) records)))"
proof -
  let ?s = "sorted_reverse (\<lambda>record. length (what record)) records"
  have "r \<in> set ?s" using assms by (simp add: sorted_reverse_def)
  then have "map_of (rev (map (\<lambda>r. (what r, target r)) ?s)) (what r) =
     Some (target (last (filter (\<lambda>x. what x = what r) ?s)))"
    by (rule map_of_rev_records)
  then show ?thesis
    by (simp add: comprehension_dict_update map_of_dict_update filter_sorted_reverse)
qed

text \<open>
  Claim C9. When the \<open>"data"\<close> field of \<open>naan_registry_cache\<close> holds the records and
  \<open>r\<close> is one of them, \<open>update_ark_root_resolver_map\<close> succeeds and the resolver map
  then gives the key \<open>what r\<close> the target of the last record, in the order of the
  registry, whose \<open>what\<close> is that key, whatever the map held before.
\<close>

theorem duplicate_what_last_wins:
  assumes cache: "getitem (naan_registry_cache w) ''data'' = Inr records"
    and r: "r \<in> set records"
  shows "\<exists>w'. update_ark_root_resolver_map w = Inr w' \<and>
           getitem (ark_root_resolver_map w') (what r) =
             Inr (target (last (filter (\<lambda>x. what x = what r) records)))"
proof -
  let ?c = "comprehension (sorted_reverse (\<lambda>record. length (what record)) records)"
  have "map_of (rev ?c) (what r) = Some (target (last (filter (\<lambda>x. what x = what r) records)))"
    using map_of_comprehension_sorted [OF r]
    by (simp add: map_of_rev_distinct [OF distinct_comprehension])
  then have "getitem (dict_update (ark_root_resolver_map w) ?c) (what r) =
      Inr (target (last (filter (\<lambda>x. what x = what r) records)))"
    by (simp add: getitem_def map_of_dict_update)
  then show ?thesis using cache by (simp add: update_ark_root_resolver_map_def)
qed

theorem duplicate_what_last_wins_witness:
  "getitem [(''data'', duplicate_records)] ''data'' = Inr duplicate_records \<and>
   \<lparr>what = ''12025'', target = T1\<rparr> \<in> set duplicate_records \<and>
   (\<exists>w'. update_ark_root_resolver_map
            \<lparr>files = [], naan_registry_cache = [(''data'', duplicate_records)],
             ark_root_resolver_map = [(''12025'', T3)], downloads = 0\<rparr> = Inr w' \<and>
          getitem (ark_root_resolver_map w') ''12025'' = Inr T2)"
proof -
  let ?w = "\<lparr>files = [], naan_registry_cache = [(''data'', duplicate_records)],
             ark_root_resolver_map = [(''12025'', T3)], downloads = 0\<rparr>"
  have c: "getitem (naan_registry_cache ?w) ''data'' = Inr duplicate_records"
    by (simp add: getitem_def)
  have r: "\<lparr>what = ''12025'', target = T1\<rparr> \<in> set duplicate_records"
    by (simp add: duplicate_records_def)
  have l: "target (last (filter (\<lambda>x. what x = ''12025'') duplicate_records)) = T2"
    by (simp add: duplicate_records_def)
  show ?thesis using duplicate_what_last_wins [OF c r] c r l by simp
qed

section \<open>Refreshing twice\<close>

lemma dict_eqI:
  "distinct (map fst a) \<Longrightarrow> map fst a = map fst b \<Longrightarrow> map_of a = map_of b \<Longrightarrow> a = b"
proof (induction a arbitrary: b)
  case Nil
  then show ?case by simp
next
  case (Cons x a)
  from Cons.prems(2) obtain y b' where b: "b = y # b'" and k: "fst x = fst y"
    and ks: "map fst a = map fst b'"
    by (cases b) auto
  have eq: "map_of (x # a) z = map_of (y # b') z" for z
    using Cons.prems(3) unfolding b by (rule fun_cong)
  have v: "snd x = snd y" using eq [of "fst x"] k by simp
  have xy: "x = y" using k v by (simp add: prod_eq_iff)
  have "map_of a = map_of b'"
  proof
    fix z
    show "map_of a z = map_of b' z"
    proof (cases "z = fst x")
      case True
      have "fst x \<notin> set (map fst a)" using Cons.prems(1) by simp
      then have "map_of a z = None" using True by (simp add: map_of_eq_None_iff)
      moreover have "fst x \<notin> set (map fst b')" using Cons.prems(1) ks by simp
      then have "map_of b' z = None" using True by (simp add: map_of_eq_None_iff)
      ultimately show ?thesis by simp
    next
      case False
      show ?thesis using eq [of z] False k by simp
    qed
  qed
  then have "a = b'" using Cons.IH [of b'] Cons.prems(1) ks by simp
  then show ?case using xy b by simp
qed

lemma keys_setitem_mem: "k \<in> fst ` set d \<Longrightarrow> map fst (setitem k v d) = map fst d"
  by (induction d) auto

lemma keys_dict_update: "fst ` set (dict_update d e) = fst ` set d \<union> fst ` set e"
  by (induction e rule: rev_induct) (auto simp: dict_update_snoc keys_setitem dict_update_def)

lemma keys_dict_update_mem:
  "fst ` set e \<subseteq> fst ` set d \<Longrightarrow> map fst (dict_update d e) = map fst d"
proof (induction e rule: rev_induct)
  case Nil
  show ?case by (simp add: dict_update_def)
next
  case (snoc kv e)
  then have "fst kv \<in> fst ` set (dict_update d e)" by (simp add: keys_dict_update)
  then show ?case using snoc by (simp add: dict_update_snoc keys_setitem_mem)
qed

lemma dict_update_idem:
  assumes "distinct (map fst d)"
  shows "dict_update (dict_update d e) e = dict_update d e"
proof (rule dict_eqI)
  show "distinct (map fst (dict_update (dict_update d e) e))"
    using assms by (simp add: distinct_dict_update)
  show "map fst (dict_update (dict_update d e) e) = map fst (dict_update d e)"
    by (rule keys_dict_update_mem) (simp add: keys_dict_update)
  show "map_of (dict_update (dict_update d e) e) = map_of (dict_update d e)"
    by (simp add: map_of_dict_update map_add_def fun_eq_iff split: option.splits)
qed

lemma publish_absorbed:
  assumes "distinct (map fst (naan_registry_cache w))"
    and "distinct (map fst (ark_root_resolver_map w))"
    and "publish data c w = (x, c', w')"
  shows "absorbed data w'" and "files w' = files w" and "downloads w' = downloads w" and "c' = c"
  using assms
  by (auto simp: publish_def update_ark_root_resolver_map_def absorbed_def Let_def
      dict_update_idem split: sum.splits)

lemma load_from_cache_exists: "load_from_cache fs p = Inr data \<Longrightarrow> exists fs p"
  by (auto simp: load_from_cache_def exists_def split: option.splits)

lemma is_cache_valid_exists: "is_cache_valid fs t p i \<Longrightarrow> exists fs p"
  by (auto simp: is_cache_valid_def exists_def split: option.splits)

lemma except_block_absorbed:
  assumes "absorbed data w" and "load_from_cache (files w) p = Inr data"
  shows "except_block (Some p) w = (Returned, w)"
  using assms load_from_cache_exists [OF assms(2)]
  by (simp add: except_block_def absorbed_def)

lemma publish_outcome:
  assumes "absorbed data w"
  shows "publish data c w = (None, c, w) \<or> (\<exists>x. publish data c w = (Some x, c, w))"
  using assms
  by (auto simp: publish_def update_ark_root_resolver_map_def absorbed_def Let_def
      split: sum.splits)

lemma ensure_absorbed:
  assumes latest: "get_latest_naan_registry_cache_file (files w) = Some f"
    and valid: "is_cache_valid (files w) (now e) f interval_seconds"
    and abs: "\<And>data. load_from_cache (files w) f = Inr data \<Longrightarrow> absorbed data w"
  shows "ensure_up_to_date_naan_registry_cache e interval_seconds False w =
           ((case load_from_cache (files w) f of Inl x \<Rightarrow> Raised x | Inr data \<Rightarrow> Returned), w)"
proof (cases "load_from_cache (files w) f")
  case (Inl x)
  have "exists (files w) f" by (rule is_cache_valid_exists [OF valid])
  then show ?thesis using Inl latest valid
    by (simp add: ensure_up_to_date_naan_registry_cache_def try_block_def except_block_def)
next
  case (Inr data)
  have a: "absorbed data w" by (rule abs [OF Inr])
  have ex: "except_block (Some f) w = (Returned, w)" by (rule except_block_absorbed [OF a Inr])
  from publish_outcome [OF a, of "Some f"] show ?thesis
  proof
    assume "publish data (Some f) w = (None, Some f, w)"
    then show ?thesis using Inr latest valid
      by (simp add: ensure_up_to_date_naan_registry_cache_def try_block_def)
  next
    assume "\<exists>x. publish data (Some f) w = (Some x, Some f, w)"
    then show ?thesis using Inr latest valid ex
      by (auto simp add: ensure_up_to_date_naan_registry_cache_def try_block_def)
  qed
qed

lemma get_latest_None: "get_latest_naan_registry_cache_file fs = None \<longleftrightarrow> fs = []"
  by (simp add: get_latest_naan_registry_cache_file_def split: list.splits)

lemma get_latest_Some:
  assumes d: "distinct (map fst fs)"
    and l: "get_latest_naan_registry_cache_file fs = Some f"
  shows "\<exists>en. map_of fs f = Some en \<and>
           (\<forall>p en'. map_of fs p = Some en' \<longrightarrow> st_mtime en' \<le> st_mtime en)"
proof -
  from l obtain x rest where fs: "fs = x # rest"
    and f: "f = fst (max_key (\<lambda>p. st_mtime (snd p)) x rest)"
    by (auto simp: get_latest_naan_registry_cache_file_def split: list.splits)
  let ?m = "max_key (\<lambda>p. st_mtime (snd p)) x rest"
  have mem: "?m \<in> set fs" using max_key_mem [of "\<lambda>p. st_mtime (snd p)" x rest] fs by simp
  then have "(f, snd ?m) \<in> set fs" using f by simp
  then have 1: "map_of fs f = Some (snd ?m)" using d by (rule map_of_is_SomeI [rotated])
  have 2: "st_mtime en' \<le> st_mtime (snd ?m)" if "map_of fs p = Some en'" for p en'
  proof -
    from that have "(p, en') \<in> set fs" by (rule map_of_SomeD)
    then have "(p, en') \<in> set (x # rest)" using fs by simp
    then show ?thesis using max_key_ge [of "(p, en')" x rest "\<lambda>p. st_mtime (snd p)"] by simp
  qed
  from 1 2 show ?thesis by blast
qed

lemma is_cache_valid_earlier:
  "t1 \<le> t2 \<Longrightarrow> is_cache_valid fs t2 f i \<Longrightarrow> is_cache_valid fs t1 f i"
  by (auto simp: is_cache_valid_def split: option.splits)

lemma valid_after_save:
  assumes d: "distinct (map fst fs)"
    and old: "case get_latest_naan_registry_cache_file fs of
                None \<Rightarrow> True | Some f0 \<Rightarrow> \<not> is_cache_valid fs t1 f0 i"
    and order: "t1 \<le> t2"
    and valid: "is_cache_valid (setitem t1 new fs) t2 f i"
  shows "f = t1"
proof (rule ccontr)
  assume ne: "f \<noteq> t1"
  from valid obtain en where en: "map_of (setitem t1 new fs) f = Some en"
    and age: "t2 - st_mtime en < i"
    by (auto simp: is_cache_valid_def split: option.splits)
  from en ne have en_old: "map_of fs f = Some en" by (simp add: map_of_setitem)
  then have "fs \<noteq> []" by auto
  then obtain f0 where f0: "get_latest_naan_registry_cache_file fs = Some f0"
    using get_latest_None [of fs] by auto
  from get_latest_Some [OF d f0] obtain en0 where en0: "map_of fs f0 = Some en0"
    and mx: "\<forall>p en'. map_of fs p = Some en' \<longrightarrow> st_mtime en' \<le> st_mtime en0"
    by blast
  from mx en_old have "st_mtime en \<le> st_mtime en0" by blast
  with age order have "t1 - st_mtime en0 < i" by simp
  with en0 have "is_cache_valid fs t1 f0 i" by (simp add: is_cache_valid_def)
  with old f0 show False by simp
qed

lemma except_block_files: "except_block c w = (r, w') \<Longrightarrow> files w' = files w"
  by (auto simp: except_block_def split: option.splits if_splits sum.splits)

lemma download_success:
  assumes reg: "distinct (map fst (naan_registry_cache w))"
    and rmap: "distinct (map fst (ark_root_resolver_map w))"
    and ok: "remote e = Inr d"
  shows "\<exists>x w'. download_and_save e c w = (x, Some (now e), w') \<and> absorbed d w' \<and>
           files w' = setitem (now e) \<lparr>st_mtime = now e, content = Some d\<rparr> (files w)"
proof -
  let ?w = "w\<lparr>downloads := Suc (downloads w),
              files := setitem (now e) \<lparr>st_mtime = now e, content = Some d\<rparr> (files w)\<rparr>"
  obtain x c' w' where p: "publish d (Some (now e)) ?w = (x, c', w')"
    by (cases "publish d (Some (now e)) ?w") auto
  have reg': "distinct (map fst (naan_registry_cache ?w))" using reg by simp
  have rmap': "distinct (map fst (ark_root_resolver_map ?w))" using rmap by simp
  note facts = publish_absorbed [OF reg' rmap' p]
  have "download_and_save e c w = (x, Some (now e), w')"
    using ok p facts(4) by (simp add: download_and_save_def save_data_to_cache_def Let_def)
  moreover have "files w' = setitem (now e) \<lparr>st_mtime = now e, content = Some d\<rparr> (files w)"
    using facts(2) by simp
  ultimately show ?thesis using facts(1) by blast
qed

lemma load_after_save:
  "load_from_cache (setitem t \<lparr>st_mtime = t, content = Some d\<rparr> fs) t = Inr d"
  by (simp add: load_from_cache_def map_of_setitem)

lemma ensure_first_call:
  assumes dir: "distinct (keys (files w0))"
    and reg: "distinct (keys (naan_registry_cache w0))"
    and rmap: "distinct (keys (ark_root_resolver_map w0))"
    and order: "now e1 \<le> now e2"
    and first: "ensure_up_to_date_naan_registry_cache e1 interval_seconds False w0 = (r1, w1)"
    and latest: "get_latest_naan_registry_cache_file (files w1) = Some f"
    and valid: "is_cache_valid (files w1) (now e2) f interval_seconds"
  shows "(\<forall>data. load_from_cache (files w1) f = Inr data \<longrightarrow> absorbed data w1) \<and>
         r1 = (case load_from_cache (files w1) f of Inl x \<Rightarrow> Raised x | Inr data \<Rightarrow> Returned)"
proof -
  let ?L = "get_latest_naan_registry_cache_file (files w0)"
  have dir': "distinct (map fst (files w0))" using dir by (simp add: keys_def)
  have reg': "distinct (map fst (naan_registry_cache w0))" using reg by (simp add: keys_def)
  have rmap': "distinct (map fst (ark_root_resolver_map w0))" using rmap by (simp add: keys_def)
  consider
      (load) f0 where "?L = Some f0" "is_cache_valid (files w0) (now e1) f0 interval_seconds"
    | (download) "case ?L of None \<Rightarrow> True
                  | Some f0 \<Rightarrow> \<not> is_cache_valid (files w0) (now e1) f0 interval_seconds"
    by (cases ?L) auto
  then show ?thesis
  proof cases
    case load
    have ex: "exists (files w0) f0" by (rule is_cache_valid_exists [OF load(2)])
    show ?thesis
    proof (cases "load_from_cache (files w0) f0")
      case (Inl x)
      then have "ensure_up_to_date_naan_registry_cache e1 interval_seconds False w0 = (Raised x, w0)"
        using load ex
        by (simp add: ensure_up_to_date_naan_registry_cache_def try_block_def except_block_def)
      with first have "r1 = Raised x" "w1 = w0" by simp_all
      with latest load(1) Inl show ?thesis by simp
    next
      case (Inr data)
      obtain x c' w' where p: "publish data (Some f0) w0 = (x, c', w')"
        by (cases "publish data (Some f0) w0") auto
      note facts = publish_absorbed [OF reg' rmap' p]
      have l': "load_from_cache (files w') f0 = Inr data" using Inr facts(2) by simp
      have "except_block (Some f0) w' = (Returned, w')"
        by (rule except_block_absorbed [OF facts(1) l'])
      then have "ensure_up_to_date_naan_registry_cache e1 interval_seconds False w0 = (Returned, w')"
        using load Inr p facts(4)
        by (cases x) (simp_all add: ensure_up_to_date_naan_registry_cache_def try_block_def)
      with first have "r1 = Returned" "w1 = w'" by simp_all
      with latest load(1) l' facts(1,2) show ?thesis by simp
    qed
  next
    case download
    have tb: "try_block e1 interval_seconds False ?L w0 = download_and_save e1 ?L w0"
      using download by (simp add: try_block_def split: option.splits)
    show ?thesis
    proof (cases "remote e1")
      case (Inl x)
      then have "ensure_up_to_date_naan_registry_cache e1 interval_seconds False w0 =
                   except_block ?L (w0\<lparr>downloads := Suc (downloads w0)\<rparr>)"
        using tb
        by (simp add: ensure_up_to_date_naan_registry_cache_def download_and_save_def Let_def)
      with first have "files w1 = files w0"
        using except_block_files [of ?L "w0\<lparr>downloads := Suc (downloads w0)\<rparr>" r1 w1] by simp
      with latest valid have "?L = Some f" "is_cache_valid (files w0) (now e2) f interval_seconds"
        by simp_all
      with order have "?L = Some f" "is_cache_valid (files w0) (now e1) f interval_seconds"
        by (simp_all add: is_cache_valid_earlier)
      with download show ?thesis by simp
    next
      case (Inr d)
      let ?new = "\<lparr>st_mtime = now e1, content = Some d\<rparr>"
      from download_success [OF reg' rmap' Inr, of ?L] obtain x w'
        where ds: "download_and_save e1 ?L w0 = (x, Some (now e1), w')"
          and a: "absorbed d w'"
          and fs: "files w' = setitem (now e1) ?new (files w0)"
        by blast
      have l': "load_from_cache (files w') (now e1) = Inr d"
        using fs by (simp add: load_after_save)
      have "except_block (Some (now e1)) w' = (Returned, w')"
        by (rule except_block_absorbed [OF a l'])
      then have "ensure_up_to_date_naan_registry_cache e1 interval_seconds False w0 = (Returned, w')"
        using tb ds by (cases x) (simp_all add: ensure_up_to_date_naan_registry_cache_def)
      with first have r: "r1 = Returned" and w: "w1 = w'" by simp_all
      have "is_cache_valid (setitem (now e1) ?new (files w0)) (now e2) f interval_seconds"
        using valid w fs by simp
      then have "f = now e1" by (rule valid_after_save [OF dir' download order])
      with r w l' a show ?thesis by simp
    qed
  qed
qed

text \<open>
  Claim C8, as amended. Take a state whose dictionaries have no key twice, a first
  call without forced download, and a second call, not earlier than the first, with
  the same interval. When at the second call the latest cache file is younger than the
  interval, counted from the file's modification time, the second call returns what
  the first returned and leaves the whole state as the first call left it: the
  download counter (no request is sent), the cache directory, \<open>naan_registry_cache\<close>
  and \<open>ark_root_resolver_map\<close>.
\<close>

theorem refresh_again_while_cache_valid:
  assumes dir: "distinct (keys (files w0))"
    and reg: "distinct (keys (naan_registry_cache w0))"
    and rmap: "distinct (keys (ark_root_resolver_map w0))"
    and order: "now e1 \<le> now e2"
    and first: "ensure_up_to_date_naan_registry_cache e1 interval_seconds False w0 = (r1, w1)"
    and latest: "get_latest_naan_registry_cache_file (files w1) = Some f"
    and valid: "is_cache_valid (files w1) (now e2) f interval_seconds"
  shows "ensure_up_to_date_naan_registry_cache e2 interval_seconds False w1 = (r1, w1)"
proof -
  note fc = ensure_first_call [OF dir reg rmap order first latest valid]
  have "\<And>data. load_from_cache (files w1) f = Inr data \<Longrightarrow> absorbed data w1"
    using fc by blast
  from ensure_absorbed [OF latest valid this] fc show ?thesis by simp
qed

theorem refresh_again_while_cache_valid_witness:
  "distinct (keys (files (initial_world []))) \<and>
   distinct (keys (naan_registry_cache (initial_world []))) \<and>
   distinct (keys (ark_root_resolver_map (initial_world []))) \<and>
   now \<lparr>now = 0, remote = Inr new_registry\<rparr> \<le> now \<lparr>now = 50, remote = Inr old_registry\<rparr> \<and>
   ensure_up_to_date_naan_registry_cache \<lparr>now = 0, remote = Inr new_registry\<rparr> 100 False
       (initial_world []) =
     (Returned, \<lparr>files = [(0, \<lparr>st_mtime = 0, content = Some new_registry\<rparr>)],
                 naan_registry_cache = new_registry,
                 ark_root_resolver_map = [(''12025'', T1)], downloads = 1\<rparr>) \<and>
   ensure_up_to_date_naan_registry_cache \<lparr>now = 50, remote = Inr old_registry\<rparr> 100 False
       \<lparr>files = [(0, \<lparr>st_mtime = 0, content = Some new_registry\<rparr>)],
        naan_registry_cache = new_registry,
        ark_root_resolver_map = [(''12025'', T1)], downloads = 1\<rparr> =
     (Returned, \<lparr>files = [(0, \<lparr>st_mtime = 0, content = Some new_registry\<rparr>)],
                 naan_registry_cache = new_registry,
                 ark_root_resolver_map = [(''12025'', T1)], downloads = 1\<rparr>)"
proof -
  let ?w1 = "\<lparr>files = [(0, \<lparr>st_mtime = 0, content = Some new_registry\<rparr>)],
              naan_registry_cache = new_registry,
              ark_root_resolver_map = [(''12025'', T1)], downloads = 1\<rparr>"
  let ?e1 = "\<lparr>now = 0, remote = Inr new_registry\<rparr>"
  let ?e2 = "\<lparr>now = 50, remote = Inr old_registry\<rparr>"
  have d1: "distinct (keys (files (initial_world [])))" by (simp add: keys_def initial_world_def)
  have d2: "distinct (keys (naan_registry_cache (initial_world [])))"
    by (simp add: keys_def initial_world_def)
  have d3: "distinct (keys (ark_root_resolver_map (initial_world [])))"
    by (simp add: keys_def initial_world_def)
  have o: "now ?e1 \<le> now ?e2" by simp
  have f: "ensure_up_to_date_naan_registry_cache ?e1 100 False (initial_world []) = (Returned, ?w1)"
    by (simp add: refresh_defs new_registry_def)
  have l: "get_latest_naan_registry_cache_file (files ?w1) = Some 0"
    by (simp add: get_latest_naan_registry_cache_file_def)
  have v: "is_cache_valid (files ?w1) (now ?e2) 0 100" by (simp add: is_cache_valid_def)
  show ?thesis
    using refresh_again_while_cache_valid [OF d1 d2 d3 o f l v] d1 d2 d3 o f by simp
qed

text \<open>
  Claim C8, as stated, fails: the first call, at time 90, loads a cache file written
  at time 0 (interval 100) and sends no request; the second call, 60 seconds later and
  so within the interval of the first, finds the file 150 seconds old, downloads, and
  the resolver map changes.
\<close>

theorem second_call_within_interval_downloads:
  "fst first_call = Returned \<and> downloads (snd first_call) = 0 \<and>
   ark_root_resolver_map (snd first_call) = [(''12025'', T1)] \<and>
   (150::int) - 90 < 100 \<and>
   fst second_call = Returned \<and> downloads (snd second_call) = 1 \<and>
   ark_root_resolver_map (snd second_call) = [(''12025'', T1), (''99999'', T2)]"
  by (simp add: first_call_def second_call_def refresh_defs aged_directory_def
      new_registry_def old_registry_def)

end
